theory Spec2Isabelle
  imports
    Complex_Main
    "HOL-Library.AList"
    "HOL-Library.Char_ord"
    "HOL-Library.List_Lexorder"
begin

section \<open>The DHT22 sensor manager of tentbox (package dht22)\<close>

text \<open>
  The development embeds \<^verbatim>\<open>go/dht22/dht22.go\<close>: the sensor handle \<^verbatim>\<open>DHT22\<close>, the
  \<^verbatim>\<open>Manager\<close> with its map of handles and its stop channel, the background read cycle
  started by \<^verbatim>\<open>StartReadCycle\<close>, and the JSON rendering behind \<^verbatim>\<open>Manager.String\<close>.
  The hardware driver \<^verbatim>\<open>dht.ReadDHTxxWithRetry\<close> is external: its result is a parameter.
\<close>

subsection \<open>Values\<close>

text \<open>
  Go's floating point values. The package never computes with them: it stores what the
  driver returned and hands it to the JSON encoder, which refuses the three non-finite
  values. A finite value is modelled by the real number it denotes.
\<close>

datatype gofloat = Finite real | PosInf | NegInf | NaN

type_synonym float32 = gofloat
type_synonym float64 = gofloat

text \<open>The conversion \<^verbatim>\<open>float64(x)\<close> of a \<^verbatim>\<open>float32\<close> is exact.\<close>

definition float64_of :: "float32 \<Rightarrow> float64" where
  "float64_of x = x"

text \<open>
  Decimal rendering of a Go \<^verbatim>\<open>int\<close>, as \<^verbatim>\<open>%d\<close> of \<^verbatim>\<open>fmt.Printf\<close> and the JSON
  encoder's map keys (\<^verbatim>\<open>strconv.FormatInt(i, 10)\<close>) produce it.
\<close>

definition digit :: "nat \<Rightarrow> char" where
  "digit n = ''0123456789'' ! n"

fun digits :: "nat \<Rightarrow> string" where
  "digits n = (if n < 10 then [digit n] else digits (n div 10) @ [digit (n mod 10)])"

declare digits.simps [simp del]

definition itoa :: "int \<Rightarrow> string" where
  "itoa i = (if i < 0 then CHR ''-'' # digits (nat (- i)) else digits (nat i))"

text \<open>Reading a decimal rendering back; used only to show that \<open>itoa\<close> loses nothing.\<close>

definition digit_val :: "char \<Rightarrow> nat" where
  "digit_val c = of_char c - 48"

definition digits_val :: "string \<Rightarrow> nat" where
  "digits_val s = foldl (\<lambda>a c. 10 * a + digit_val c) 0 s"

definition atoi :: "string \<Rightarrow> int" where
  "atoi s = (case s of
               [] \<Rightarrow> 0
             | c # r \<Rightarrow> if c = CHR ''-'' then - int (digits_val r) else int (digits_val s))"

subsection \<open>JSON documents\<close>

text \<open>
  The output of \<^verbatim>\<open>json.Marshal\<close> is kept as a document tree: an object is the list of
  its members in the order the encoder writes them. The byte-level rendering (escapes,
  number formatting) is left out.
\<close>

datatype json = JNull | JString string | JNumber real | JObject "(string \<times> json) list"

datatype marshal_error = UnsupportedValue

fun members :: "json \<Rightarrow> (string \<times> json) list" where
  "members (JObject kvs) = kvs"
| "members _ = []"

definition member :: "json \<Rightarrow> string \<Rightarrow> json option" where
  "member j k = map_of (members j) k"

text \<open>A \<^verbatim>\<open>float64\<close> member: NaN and the infinities are an \<^verbatim>\<open>UnsupportedValueError\<close>.\<close>

fun marshal_float :: "float64 \<Rightarrow> marshal_error + json" where
  "marshal_float (Finite r) = Inr (JNumber r)"
| "marshal_float _ = Inl UnsupportedValue"

subsection \<open>The sensor handle\<close>

text \<open>
  \<^verbatim>\<open>type DHT22 struct { sync.RWMutex; pin int; Name, Location string; Temp, Humidity float64 }\<close>.
  The embedded lock is not a field of the record: a call of \<open>SetName\<close> or \<open>SetLocation\<close>
  takes and releases it around one assignment. The lock reappears in the fine-grained
  model of the accesses to one handle below.
\<close>

record DHT22 =
  pin :: int
  Name :: string
  Location :: string
  Temp :: float64
  Humidity :: float64

definition NewDHT22 :: "int \<Rightarrow> string \<Rightarrow> string \<Rightarrow> DHT22" where
  "NewDHT22 p name location =
     \<lparr>pin = p, Name = name, Location = location, Temp = Finite 0, Humidity = Finite 0\<rparr>"

definition SetName :: "DHT22 \<Rightarrow> string \<Rightarrow> DHT22" where
  "SetName d name = d\<lparr>Name := name\<rparr>"

definition SetLocation :: "DHT22 \<Rightarrow> string \<Rightarrow> DHT22" where
  "SetLocation d location = d\<lparr>Location := location\<rparr>"

text \<open>
  What \<^verbatim>\<open>dht.ReadDHTxxWithRetry(dht.DHT22, d.pin, false, 3)\<close> returned:
  temperature, humidity, the number of retries and the error (\<open>None\<close> is \<^verbatim>\<open>nil\<close>).
\<close>

type_synonym driver_result = "float32 \<times> float32 \<times> int \<times> string option"

definition failure_line :: "int \<Rightarrow> string" where
  "failure_line retried =
     ''Failed to get a successful reading after '' @ itoa retried @ '' attempts'' @ [CHR 0x0A]"

text \<open>\<open>read\<close> returns the handle after the call and the lines it printed.\<close>

fun read :: "DHT22 \<Rightarrow> driver_result \<Rightarrow> DHT22 \<times> string list" where
  "read d (temperature, humidity, retried, err) =
     (if err \<noteq> None then (d, [failure_line retried])
      else (d\<lparr>Temp := float64_of temperature, Humidity := float64_of humidity\<rparr>, []))"

text \<open>
  The JSON object of one handle. Only the four tagged fields are written: \<open>pin\<close> is
  unexported and the embedded lock has no exported field.
\<close>

definition marshal_DHT22 :: "DHT22 \<Rightarrow> marshal_error + json" where
  "marshal_DHT22 d =
     (case marshal_float (Temp d) of
        Inl e \<Rightarrow> Inl e
      | Inr t \<Rightarrow>
          (case marshal_float (Humidity d) of
             Inl e \<Rightarrow> Inl e
           | Inr h \<Rightarrow>
               Inr (JObject [(''name'', JString (Name d)), (''location'', JString (Location d)),
                             (''temp'', t), (''humidity'', h)])))"

subsection \<open>The manager\<close>

text \<open>
  \<^verbatim>\<open>type Manager struct { Sensors map[int]*DHT22; stopReading chan struct{} }\<close>.
  The map is an association list with one pair for each key, \<open>None\<close> being the nil map.
  \<open>AddSensor\<close> stores a handle under its own \<open>pin\<close>, and \<open>pin\<close> is never assigned after
  construction, so no handle is reachable from two keys of one manager: the handles are
  kept in the map by value. A channel is named by a number; \<open>None\<close> is the nil channel.
\<close>

record Manager =
  Sensors :: "(int \<times> DHT22) list option"
  stopReading :: "nat option"

definition NewManager :: Manager where
  "NewManager = \<lparr>Sensors = Some [], stopReading = None\<rparr>"

datatype fault = Panic string | NotEnabled

text \<open>
  \<^verbatim>\<open>dm.Sensors[dht.pin] = dht\<close>: the argument is a pointer, \<open>None\<close> being nil. Reading
  \<^verbatim>\<open>dht.pin\<close> comes first.
\<close>

definition AddSensor :: "Manager \<Rightarrow> DHT22 option \<Rightarrow> fault + Manager" where
  "AddSensor dm dht =
     (case dht of
        None \<Rightarrow> Inl (Panic ''invalid memory address or nil pointer dereference'')
      | Some d \<Rightarrow>
          (case Sensors dm of
             None \<Rightarrow> Inl (Panic ''assignment to entry in nil map'')
           | Some m \<Rightarrow> Inr (dm\<lparr>Sensors := Some (AList.update (pin d) d m)\<rparr>)))"

text \<open>
  \<^verbatim>\<open>json.Marshal(dm)\<close>: the one exported field under its tag \<^verbatim>\<open>dht22\<close>; a map is
  written with its keys rendered in decimal and sorted as strings; the first member that
  cannot be encoded fails the whole call.
\<close>

fun marshal_entries :: "(int \<times> DHT22) list \<Rightarrow> marshal_error + (string \<times> json) list" where
  "marshal_entries [] = Inr []"
| "marshal_entries ((k, d) # kvs) =
     (case marshal_DHT22 d of
        Inl e \<Rightarrow> Inl e
      | Inr j \<Rightarrow>
          (case marshal_entries kvs of
             Inl e \<Rightarrow> Inl e
           | Inr js \<Rightarrow> Inr ((itoa k, j) # js)))"

definition sorted_by_key :: "(int \<times> DHT22) list \<Rightarrow> (int \<times> DHT22) list" where
  "sorted_by_key m = sort_key (\<lambda>kv. itoa (fst kv)) m"

definition marshal_Manager :: "Manager \<Rightarrow> marshal_error + json" where
  "marshal_Manager dm =
     (case Sensors dm of
        None \<Rightarrow> Inr (JObject [(''dht22'', JNull)])
      | Some m \<Rightarrow>
          (case marshal_entries (sorted_by_key m) of
             Inl e \<Rightarrow> Inl e
           | Inr js \<Rightarrow> Inr (JObject [(''dht22'', JObject js)])))"

text \<open>
  \<^verbatim>\<open>data, _ := json.Marshal(dm); return string(data)\<close>: the error is dropped, and the
  result is then the empty string, here \<open>None\<close>.
\<close>

definition Manager_String :: "Manager \<Rightarrow> json option" where
  "Manager_String dm = (case marshal_Manager dm of Inl e \<Rightarrow> None | Inr j \<Rightarrow> Some j)"

text \<open>The entries of the snapshot: the object under \<^verbatim>\<open>dht22\<close>, keyed by address.\<close>

definition snapshot_entries :: "Manager \<Rightarrow> (string \<times> json) list option" where
  "snapshot_entries dm =
     (case Manager_String dm of
        None \<Rightarrow> None
      | Some j \<Rightarrow> (case member j ''dht22'' of None \<Rightarrow> None | Some obj \<Rightarrow> Some (members obj)))"

subsection \<open>The read cycle\<close>

text \<open>
  One pass of the inner loop, \<^verbatim>\<open>for _, sensor := range dm.Sensors { sensor.read() }\<close>.
  The driver is called with the handle's own \<open>pin\<close>; \<open>drv\<close> gives the result of that
  call. Go leaves the order of a map iteration open; the pass below follows the list.
  Every handle is read on its own, so only the order of the printed lines depends on
  that choice. Ranging over the nil map visits nothing.
\<close>

fun read_all :: "(int \<Rightarrow> driver_result) \<Rightarrow> (int \<times> DHT22) list \<Rightarrow> (int \<times> DHT22) list \<times> string list" where
  "read_all drv [] = ([], [])"
| "read_all drv ((k, d) # kvs) =
     (case read d (drv (pin d)) of
        (d', out) \<Rightarrow> (case read_all drv kvs of (kvs', outs) \<Rightarrow> ((k, d') # kvs', out @ outs)))"

text \<open>
  The running program: the manager, the channels made so far (numbered \<open>0 ..< nchans\<close>,
  those in \<open>closed\<close> are closed), the goroutines spawned by \<open>StartReadCycle\<close> and what has
  been printed. Durations are whole nanoseconds; the passing of time itself is not
  modelled: a ticker can deliver and a sleep can end at any step.
\<close>

datatype task =
    Spawned int
  | Selecting int "nat option"
  | Looping int
  | Exited

record system =
  manager :: Manager
  closed :: "nat set"
  nchans :: nat
  tasks :: "task list"
  stdout :: "string list"

definition boot :: system where
  "boot = \<lparr>manager = NewManager, closed = {}, nchans = 0, tasks = [], stdout = []\<rparr>"

text \<open>
  \<^verbatim>\<open>dm.stopReading = make(chan struct{}); go func() { ... }()\<close>: the caller's part of
  \<open>StartReadCycle\<close>. The goroutine starts in \<open>Spawned\<close>.
\<close>

definition StartReadCycle :: "system \<Rightarrow> int \<Rightarrow> system" where
  "StartReadCycle s interval =
     s\<lparr>manager := (manager s)\<lparr>stopReading := Some (nchans s)\<rparr>,
       nchans := Suc (nchans s),
       tasks := tasks s @ [Spawned interval]\<rparr>"

text \<open>\<^verbatim>\<open>close(dm.stopReading)\<close>: closing the nil channel or a closed channel panics.\<close>

definition StopReadCycle :: "system \<Rightarrow> fault + system" where
  "StopReadCycle s =
     (case stopReading (manager s) of
        None \<Rightarrow> Inl (Panic ''close of nil channel'')
      | Some c \<Rightarrow>
          if c \<in> closed s then Inl (Panic ''close of closed channel'')
          else Inr (s\<lparr>closed := insert c (closed s)\<rparr>))"

text \<open>
  The moves of the goroutine of \<open>StartReadCycle\<close>:
  \<^item> \<open>Enter\<close>: \<^verbatim>\<open>time.NewTicker(interval)\<close>, which panics unless the interval is
    positive, then the \<^verbatim>\<open>select\<close> reads \<^verbatim>\<open>dm.stopReading\<close> and blocks;
  \<^item> \<open>TakeStop\<close>: the case \<^verbatim>\<open><-dm.stopReading\<close>, ready once that channel is closed
    (nothing is ever sent on it, and the nil channel is never ready):
    \<^verbatim>\<open>ticker.Stop(); return\<close>;
  \<^item> \<open>TakeTick\<close>: the case \<^verbatim>\<open><-ticker.C\<close>, entering the \<^verbatim>\<open>for\<close> loop;
  \<^item> \<open>Pass drv\<close>: one round of the \<^verbatim>\<open>for\<close> loop, reading every sensor and then
    \<^verbatim>\<open>time.Sleep(interval)\<close>. The loop has no exit.
\<close>

datatype move = Enter | TakeStop | TakeTick | Pass "int \<Rightarrow> driver_result"

fun task_step :: "move \<Rightarrow> task \<Rightarrow> system \<Rightarrow> fault + task \<times> system" where
  "task_step Enter (Spawned interval) s =
     (if interval \<le> 0 then Inl (Panic ''non-positive interval for NewTicker'')
      else Inr (Selecting interval (stopReading (manager s)), s))"
| "task_step TakeStop (Selecting interval ch) s =
     (case ch of
        None \<Rightarrow> Inl NotEnabled
      | Some c \<Rightarrow> if c \<in> closed s then Inr (Exited, s) else Inl NotEnabled)"
| "task_step TakeTick (Selecting interval ch) s = Inr (Looping interval, s)"
| "task_step (Pass drv) (Looping interval) s =
     (case Sensors (manager s) of
        None \<Rightarrow> Inr (Looping interval, s)
      | Some m \<Rightarrow>
          (case read_all drv m of
             (m', out) \<Rightarrow>
               Inr (Looping interval,
                    s\<lparr>manager := (manager s)\<lparr>Sensors := Some m'\<rparr>, stdout := stdout s @ out\<rparr>)))"
| "task_step _ _ s = Inl NotEnabled"

text \<open>
  What can happen next: a call of the manager's API, a call of a setter of the handle
  registered under a pin, or a move of goroutine number \<open>i\<close>.
\<close>

datatype event =
    CallAddSensor "DHT22 option"
  | CallSetName int string
  | CallSetLocation int string
  | CallStartReadCycle int
  | CallStopReadCycle
  | Task nat move

definition on_handle :: "int \<Rightarrow> (DHT22 \<Rightarrow> DHT22) \<Rightarrow> Manager \<Rightarrow> Manager" where
  "on_handle p f dm = dm\<lparr>Sensors := map_option (AList.map_entry p f) (Sensors dm)\<rparr>"

fun step :: "event \<Rightarrow> system \<Rightarrow> fault + system" where
  "step (CallAddSensor dht) s =
     (case AddSensor (manager s) dht of
        Inl f \<Rightarrow> Inl f
      | Inr dm \<Rightarrow> Inr (s\<lparr>manager := dm\<rparr>))"
| "step (CallSetName p name) s = Inr (s\<lparr>manager := on_handle p (\<lambda>d. SetName d name) (manager s)\<rparr>)"
| "step (CallSetLocation p location) s =
     Inr (s\<lparr>manager := on_handle p (\<lambda>d. SetLocation d location) (manager s)\<rparr>)"
| "step (CallStartReadCycle interval) s = Inr (StartReadCycle s interval)"
| "step CallStopReadCycle s = StopReadCycle s"
| "step (Task i mv) s =
     (if i < length (tasks s) then
        (case task_step mv (tasks s ! i) s of
           Inl f \<Rightarrow> Inl f
         | Inr (t, s') \<Rightarrow> Inr (s'\<lparr>tasks := (tasks s')[i := t]\<rparr>))
      else Inl NotEnabled)"

fun run :: "event list \<Rightarrow> system \<Rightarrow> fault + system" where
  "run [] s = Inr s"
| "run (e # es) s = (case step e s of Inl f \<Rightarrow> Inl f | Inr s' \<Rightarrow> run es s')"

definition is_start :: "event \<Rightarrow> bool" where
  "is_start e = (case e of CallStartReadCycle interval \<Rightarrow> True | _ \<Rightarrow> False)"

text \<open>The reading of the handle registered under a pin.\<close>

definition reading :: "system \<Rightarrow> int \<Rightarrow> (float64 \<times> float64) option" where
  "reading s p =
     (case Sensors (manager s) of
        None \<Rightarrow> None
      | Some m \<Rightarrow> map_option (\<lambda>d. (Temp d, Humidity d)) (map_of m p))"

subsection \<open>The accesses to one handle\<close>

text \<open>
  The statements of the package that touch one handle, one memory access at a time, with
  the handle's lock. \<open>SetName\<close> and \<open>SetLocation\<close> hold the lock around their store;
  \<open>read\<close> stores \<open>Temp\<close> and then \<open>Humidity\<close> and \<^verbatim>\<open>json.Marshal\<close> loads the fields,
  both without taking the lock. The encoder's loads are taken as one step.
\<close>

datatype access =
    Lock
  | Unlock
  | StoreName string
  | StoreLocation string
  | StoreTemp float64
  | StoreHumidity float64
  | Printf string
  | Encode

record cell =
  obj :: DHT22
  locked :: bool
  printed :: "string list"
  encoded :: "(marshal_error + json) list"

definition fresh_cell :: "DHT22 \<Rightarrow> cell" where
  "fresh_cell d = \<lparr>obj = d, locked = False, printed = [], encoded = []\<rparr>"

fun access_step :: "access \<Rightarrow> cell \<Rightarrow> fault + cell" where
  "access_step Lock c = (if locked c then Inl NotEnabled else Inr (c\<lparr>locked := True\<rparr>))"
| "access_step Unlock c =
     (if locked c then Inr (c\<lparr>locked := False\<rparr>)
      else Inl (Panic ''sync: Unlock of unlocked RWMutex''))"
| "access_step (StoreName name) c = Inr (c\<lparr>obj := (obj c)\<lparr>Name := name\<rparr>\<rparr>)"
| "access_step (StoreLocation location) c = Inr (c\<lparr>obj := (obj c)\<lparr>Location := location\<rparr>\<rparr>)"
| "access_step (StoreTemp t) c = Inr (c\<lparr>obj := (obj c)\<lparr>Temp := t\<rparr>\<rparr>)"
| "access_step (StoreHumidity h) c = Inr (c\<lparr>obj := (obj c)\<lparr>Humidity := h\<rparr>\<rparr>)"
| "access_step (Printf line) c = Inr (c\<lparr>printed := printed c @ [line]\<rparr>)"
| "access_step Encode c = Inr (c\<lparr>encoded := encoded c @ [marshal_DHT22 (obj c)]\<rparr>)"

definition SetName_code :: "string \<Rightarrow> access list" where
  "SetName_code name = [Lock, StoreName name, Unlock]"

definition SetLocation_code :: "string \<Rightarrow> access list" where
  "SetLocation_code location = [Lock, StoreLocation location, Unlock]"

fun read_code :: "driver_result \<Rightarrow> access list" where
  "read_code (temperature, humidity, retried, err) =
     (if err \<noteq> None then [Printf (failure_line retried)]
      else [StoreTemp (float64_of temperature), StoreHumidity (float64_of humidity)])"

definition String_code :: "access list" where
  "String_code = [Encode]"

text \<open>One goroutine running its accesses alone.\<close>

fun alone :: "access list \<Rightarrow> cell \<Rightarrow> fault + cell" where
  "alone [] c = Inr c"
| "alone (a # as) c = (case access_step a c of Inl f \<Rightarrow> Inl f | Inr c' \<Rightarrow> alone as c')"

text \<open>
  Several goroutines: the schedule names, step by step, the goroutine whose next access
  runs.
\<close>

fun interleave :: "nat list \<Rightarrow> access list list \<Rightarrow> cell \<Rightarrow> fault + cell" where
  "interleave [] ths c = Inr c"
| "interleave (i # sched) ths c =
     (if i < length ths then
        (case ths ! i of
           [] \<Rightarrow> Inl NotEnabled
         | a # rest \<Rightarrow>
             (case access_step a c of
                Inl f \<Rightarrow> Inl f
              | Inr c' \<Rightarrow> interleave sched (ths[i := rest]) c'))
      else Inl NotEnabled)"

subsection \<open>Registering configured sensors\<close>

text \<open>
  A sensor descriptor is \<open>(pin, name, location)\<close>. Registering it is
  \<^verbatim>\<open>m.AddSensor(NewDHT22(pin, name, location))\<close>, as the package's test does;
  \<open>initial_entry\<close> is the JSON object of a handle that has never been read.
\<close>

definition register :: "int \<times> string \<times> string \<Rightarrow> event" where
  "register r = (case r of (p, name, location) \<Rightarrow> CallAddSensor (Some (NewDHT22 p name location)))"

definition registered :: "int \<times> string \<times> string \<Rightarrow> int \<times> DHT22" where
  "registered r = (case r of (p, name, location) \<Rightarrow> (p, NewDHT22 p name location))"

definition initial_entry :: "string \<Rightarrow> string \<Rightarrow> json" where
  "initial_entry name location =
     JObject [(''name'', JString name), (''location'', JString location),
              (''temp'', JNumber 0), (''humidity'', JNumber 0)]"

subsection \<open>Reachable states\<close>

text \<open>
  What every state reached from \<open>boot\<close> satisfies: only channels that were made are
  closed, and a manager holding a stop channel has spawned a goroutine.
\<close>

definition coherent :: "system \<Rightarrow> bool" where
  "coherent s =
     (closed s \<subseteq> {..<nchans s} \<and>
      (case stopReading (manager s) of
         None \<Rightarrow> True
       | Some c \<Rightarrow> c < nchans s \<and> tasks s \<noteq> []))"

section \<open>Properties\<close>

subsection \<open>Decimal rendering is injective\<close>

lemma digit_val_digit: "k < 10 \<Longrightarrow> digit_val (digit k) = k"
proof -
  assume "k < 10"
  then have "k \<in> {0, 1, 2, 3, 4, 5, 6, 7, 8, 9}" by auto
  then show ?thesis by (auto simp: digit_val_def digit_def)
qed

lemma digit_not_minus: "k < 10 \<Longrightarrow> digit k \<noteq> CHR ''-''"
proof -
  assume "k < 10"
  then have "k \<in> {0, 1, 2, 3, 4, 5, 6, 7, 8, 9}" by auto
  then show ?thesis by (auto simp: digit_def)
qed

lemma digits_val_snoc: "digits_val (s @ [c]) = 10 * digits_val s + digit_val c"
  by (simp add: digits_val_def)

lemma digits_val_digits: "digits_val (digits n) = n"
proof (induction n rule: digits.induct)
  case (1 n)
  show ?case
  proof (cases "n < 10")
    case True
    then show ?thesis by (simp add: digits.simps [of n] digits_val_def digit_val_digit)
  next
    case False
    with 1 show ?thesis
      by (simp add: digits.simps [of n] digits_val_snoc digit_val_digit)
  qed
qed

lemma digits_hd: "\<exists>c r. digits n = c # r \<and> c \<noteq> CHR ''-''"
proof (induction n rule: digits.induct)
  case (1 n)
  show ?case
  proof (cases "n < 10")
    case True
    then show ?thesis by (simp add: digits.simps [of n] digit_not_minus)
  next
    case False
    with 1 obtain c r where "digits (n div 10) = c # r" "c \<noteq> CHR ''-''" by blast
    with False show ?thesis by (simp add: digits.simps [of n])
  qed
qed

lemma atoi_itoa: "atoi (itoa i) = i"
proof (cases "i < 0")
  case True
  then show ?thesis by (simp add: atoi_def itoa_def digits_val_digits)
next
  case False
  obtain c r where cr: "digits (nat i) = c # r" "c \<noteq> CHR ''-''" using digits_hd by blast
  have "digits_val (c # r) = nat i" using digits_val_digits [of "nat i"] cr by simp
  with False cr show ?thesis by (simp add: atoi_def itoa_def)
qed

lemma inj_itoa: "inj itoa"
  by (rule inj_on_inverseI [where g = atoi]) (rule atoi_itoa)

subsection \<open>Registering and the snapshot\<close>

lemma update_fresh: "k \<notin> fst ` set m \<Longrightarrow> AList.update k v m = m @ [(k, v)]"
  by (induction m) auto

lemma run_register:
  "Sensors (manager s) = Some m \<Longrightarrow> distinct (map fst regs) \<Longrightarrow> fst ` set regs \<inter> fst ` set m = {} \<Longrightarrow>
   run (map register regs) s = Inr (s\<lparr>manager := (manager s)\<lparr>Sensors := Some (m @ map registered regs)\<rparr>\<rparr>)"
proof (induction regs arbitrary: s m)
  case Nil
  then show ?case by simp
next
  case (Cons r regs)
  obtain p name location where r: "r = (p, name, location)" by (cases r)
  let ?d = "NewDHT22 p name location"
  let ?s = "s\<lparr>manager := (manager s)\<lparr>Sensors := Some (m @ [(p, ?d)])\<rparr>\<rparr>"
  from Cons.prems r have fresh: "p \<notin> fst ` set m" by auto
  have st: "step (register r) s = Inr ?s"
    using Cons.prems(1) fresh by (simp add: register_def r AddSensor_def NewDHT22_def update_fresh)
  have "run (map register regs) ?s =
        Inr (?s\<lparr>manager := (manager ?s)\<lparr>Sensors := Some ((m @ [(p, ?d)]) @ map registered regs)\<rparr>\<rparr>)"
  proof (rule Cons.IH)
    show "Sensors (manager ?s) = Some (m @ [(p, ?d)])" by simp
    show "distinct (map fst regs)" using Cons.prems by simp
    show "fst ` set regs \<inter> fst ` set (m @ [(p, ?d)]) = {}" using Cons.prems r by auto
  qed
  with st show ?case by (simp add: registered_def r)
qed

lemma marshal_entries_map:
  "\<forall>kv \<in> set m. marshal_DHT22 (snd kv) = Inr (g kv) \<Longrightarrow>
   marshal_entries m = Inr (map (\<lambda>kv. (itoa (fst kv), g kv)) m)"
  by (induction m) auto

lemma distinct_keys_sorted:
  "distinct (map fst m) \<Longrightarrow> distinct (map (\<lambda>kv. itoa (fst kv)) (sorted_by_key m))"
proof -
  assume d: "distinct (map fst m)"
  have "inj_on (\<lambda>kv. itoa (fst kv)) (set m)"
    using d inj_itoa by (auto simp: inj_on_def distinct_map dest: injD)
  moreover have "distinct m" using d by (simp add: distinct_map)
  ultimately show ?thesis by (simp add: sorted_by_key_def distinct_map)
qed

text \<open>
  Claim C5. Registering any finite sequence of sensors with pairwise distinct addresses
  on a fresh manager succeeds, and the snapshot taken afterwards has exactly one entry
  for each registered address, under the decimal rendering of that address; the entry
  carries the registered name and location and the zero readings of a handle that has
  never been read.
\<close>

theorem snapshot_of_registered:
  assumes "distinct (map fst regs)"
  shows "\<exists>s es. run (map register regs) boot = Inr s \<and>
           snapshot_entries (manager s) = Some es \<and>
           distinct (map fst es) \<and>
           set (map fst es) = (\<lambda>r. itoa (fst r)) ` set regs \<and>
           (\<forall>(p, name, location) \<in> set regs. map_of es (itoa p) = Some (initial_entry name location))"
proof -
  let ?m = "map registered regs"
  let ?s = "boot\<lparr>manager := (manager boot)\<lparr>Sensors := Some ([] @ ?m)\<rparr>\<rparr>"
  let ?g = "\<lambda>kv. initial_entry (Name (snd kv)) (Location (snd kv))"
  let ?es = "map (\<lambda>kv. (itoa (fst kv), ?g kv)) (sorted_by_key ?m)"
  have run: "run (map register regs) boot = Inr ?s"
    by (rule run_register) (use assms in \<open>simp_all add: boot_def NewManager_def\<close>)
  have keys: "fst \<circ> registered = fst" by (auto simp: registered_def)
  have "\<forall>kv \<in> set (sorted_by_key ?m). marshal_DHT22 (snd kv) = Inr (?g kv)"
    by (auto simp: sorted_by_key_def registered_def marshal_DHT22_def NewDHT22_def initial_entry_def)
  then have "marshal_entries (sorted_by_key ?m) = Inr ?es" by (rule marshal_entries_map)
  then have snap: "snapshot_entries (manager ?s) = Some ?es"
    by (simp add: snapshot_entries_def Manager_String_def marshal_Manager_def member_def)
  have fst_es: "map fst ?es = map (\<lambda>kv. itoa (fst kv)) (sorted_by_key ?m)"
    by (simp add: comp_def)
  have "distinct (map fst ?m)" using assms by (simp add: keys)
  then have dist: "distinct (map fst ?es)"
    unfolding fst_es by (rule distinct_keys_sorted)
  have set_es: "set ?es = (\<lambda>r. (itoa (fst r), initial_entry (fst (snd r)) (snd (snd r)))) ` set regs"
    by (simp add: sorted_by_key_def image_image registered_def NewDHT22_def split_def)
  have ks: "set (map fst ?es) = (\<lambda>r. itoa (fst r)) ` set regs"
    by (simp add: sorted_by_key_def image_image registered_def split_def)
  have look: "\<forall>(p, name, location) \<in> set regs. map_of ?es (itoa p) = Some (initial_entry name location)"
  proof (clarify)
    fix p name location assume "(p, name, location) \<in> set regs"
    then have "(itoa p, initial_entry name location) \<in> set ?es" unfolding set_es by force
    with dist show "map_of ?es (itoa p) = Some (initial_entry name location)"
      by (rule map_of_is_SomeI)
  qed
  from run snap dist ks look show ?thesis by blast
qed


lemma itoa_19: "itoa 19 = ''19''"
  by (simp add: itoa_def digits.simps digit_def)

lemma itoa_4: "itoa 4 = ''4''"
  by (simp add: itoa_def digits.simps digit_def)

theorem snapshot_of_registered_witness:
  "\<exists>s es. run (map register [(19, ''top of tent'', ''tent''), (4, ''Living Room'', ''Home'')]) boot = Inr s \<and>
           snapshot_entries (manager s) = Some es \<and>
           distinct (map fst es) \<and>
           set (map fst es) = {''19'', ''4''} \<and>
           map_of es ''19'' = Some (initial_entry ''top of tent'' ''tent'') \<and>
           map_of es ''4'' = Some (initial_entry ''Living Room'' ''Home'')"
proof -
  have "distinct (map fst [(19::int, ''top of tent'', ''tent''), (4, ''Living Room'', ''Home'')])"
    by simp
  from snapshot_of_registered [OF this] obtain s es where
    "run (map register [(19, ''top of tent'', ''tent''), (4, ''Living Room'', ''Home'')]) boot = Inr s"
    "snapshot_entries (manager s) = Some es" "distinct (map fst es)"
    "set (map fst es) = (\<lambda>r. itoa (fst r)) ` set [(19::int, ''top of tent'', ''tent''), (4, ''Living Room'', ''Home'')]"
    "\<forall>(p, name, location) \<in> set [(19::int, ''top of tent'', ''tent''), (4, ''Living Room'', ''Home'')].
        map_of es (itoa p) = Some (initial_entry name location)"
    by blast
  then show ?thesis by (auto simp: itoa_19 itoa_4)
qed

subsection \<open>Registering an address twice\<close>

text \<open>
  Claim C3, as stated, fails: \<open>AddSensor\<close> has no result to report an error with and
  stores the new handle over the old one. Registering \<open>Bedroom\<close> under pin 4 after
  \<open>Living Room\<close> changes the mapping.
\<close>

theorem AddSensor_duplicate_counterexample:
  "AddSensor NewManager (Some (NewDHT22 4 ''Living Room'' ''Home'')) =
     Inr \<lparr>Sensors = Some [(4, NewDHT22 4 ''Living Room'' ''Home'')], stopReading = None\<rparr> \<and>
   AddSensor \<lparr>Sensors = Some [(4, NewDHT22 4 ''Living Room'' ''Home'')], stopReading = None\<rparr>
       (Some (NewDHT22 4 ''Bedroom'' ''Home'')) =
     Inr \<lparr>Sensors = Some [(4, NewDHT22 4 ''Bedroom'' ''Home'')], stopReading = None\<rparr> \<and>
   [(4::int, NewDHT22 4 ''Bedroom'' ''Home'')] \<noteq> [(4, NewDHT22 4 ''Living Room'' ''Home'')]"
  by (simp add: AddSensor_def NewManager_def NewDHT22_def)

text \<open>
  Claim C3, amended. For every manager with a map and every handle whose address is
  already present, \<open>AddSensor\<close> returns without an error and the handle registered for
  that address is replaced by the new one; the other entries and the registered
  addresses stay as they were.
\<close>

theorem AddSensor_replaces:
  assumes "Sensors dm = Some m" and "map_of m (pin d) = Some old"
  shows "AddSensor dm (Some d) = Inr (dm\<lparr>Sensors := Some (AList.update (pin d) d m)\<rparr>) \<and>
         map_of (AList.update (pin d) d m) = (map_of m)(pin d \<mapsto> d) \<and>
         map fst (AList.update (pin d) d m) = map fst m"
proof -
  from assms(2) have "pin d \<in> set (map fst m)"
    by (metis domI dom_map_of_conv_image_fst set_map)
  then have "map fst (AList.update (pin d) d m) = map fst m"
    by (simp add: update_keys)
  with assms(1) show ?thesis
    by (simp add: AddSensor_def update_conv')
qed

theorem AddSensor_replaces_witness:
  "AddSensor \<lparr>Sensors = Some [(4, NewDHT22 4 ''Living Room'' ''Home'')], stopReading = None\<rparr>
       (Some (NewDHT22 4 ''Bedroom'' ''Home'')) =
     Inr \<lparr>Sensors = Some [(4, NewDHT22 4 ''Bedroom'' ''Home'')], stopReading = None\<rparr> \<and>
   map_of [(4::int, NewDHT22 4 ''Bedroom'' ''Home'')] 4 = Some (NewDHT22 4 ''Bedroom'' ''Home'')"
  using AddSensor_replaces [of "\<lparr>Sensors = Some [(4, NewDHT22 4 ''Living Room'' ''Home'')], stopReading = None\<rparr>"
      "[(4, NewDHT22 4 ''Living Room'' ''Home'')]" "NewDHT22 4 ''Bedroom'' ''Home''" "NewDHT22 4 ''Living Room'' ''Home''"]
  by (simp add: NewDHT22_def)

subsection \<open>Reading one sensor\<close>

text \<open>
  Claim C4, as stated, fails: the handle has no field for a last error. After a failed
  read the handle is what it was, the attempt count has only been printed, and the
  handle's JSON object has no \<^verbatim>\<open>lastError\<close> member; a successful read of the
  same values leaves the very same handle.
\<close>

theorem read_failure_counterexample:
  "read (NewDHT22 4 ''Living Room'' ''Home'') (Finite 0, Finite 0, 3, Some ''timeout'') =
     (NewDHT22 4 ''Living Room'' ''Home'',
      [''Failed to get a successful reading after 3 attempts'' @ [CHR 0x0A]]) \<and>
   read (NewDHT22 4 ''Living Room'' ''Home'') (Finite 0, Finite 0, 0, None) =
     (NewDHT22 4 ''Living Room'' ''Home'', []) \<and>
   marshal_DHT22 (NewDHT22 4 ''Living Room'' ''Home'') =
     Inr (JObject [(''name'', JString ''Living Room''), (''location'', JString ''Home''),
                   (''temp'', JNumber 0), (''humidity'', JNumber 0)]) \<and>
   member (JObject [(''name'', JString ''Living Room''), (''location'', JString ''Home''),
                    (''temp'', JNumber 0), (''humidity'', JNumber 0)]) ''lastError'' = None"
  by (simp add: NewDHT22_def failure_line_def itoa_def digits.simps digit_def float64_of_def
      marshal_DHT22_def member_def)

text \<open>
  Claim C4, amended. A read whose driver call failed leaves the whole handle, and with
  it the temperature and humidity, as it was, and prints one line carrying the driver's
  retry count; nothing is recorded on the handle, so its JSON object is unchanged. A
  read whose driver call succeeded replaces temperature and humidity and prints
  nothing. Neither case panics.
\<close>

theorem read_outcome:
  "read d (t, h, retried, Some e) = (d, [failure_line retried]) \<and>
   marshal_DHT22 (fst (read d (t, h, retried, Some e))) = marshal_DHT22 d \<and>
   read d (t, h, retried, None) = (d\<lparr>Temp := t, Humidity := h\<rparr>, [])"
  by (simp add: float64_of_def)

theorem read_outcome_witness:
  "read (NewDHT22 4 ''Living Room'' ''Home'') (Finite 0, Finite 0, 3, Some ''timeout'') =
     (NewDHT22 4 ''Living Room'' ''Home'', [failure_line 3]) \<and>
   read (NewDHT22 4 ''Living Room'' ''Home'') (Finite 21.5, Finite 40, 0, None) =
     (\<lparr>pin = 4, Name = ''Living Room'', Location = ''Home'', Temp = Finite 21.5, Humidity = Finite 40\<rparr>, [])"
  using read_outcome [of "NewDHT22 4 ''Living Room'' ''Home''" "Finite 0" "Finite 0" 3 "''timeout''"]
    read_outcome [of "NewDHT22 4 ''Living Room'' ''Home''" "Finite 21.5" "Finite 40" 0 "''timeout''"]
  by (simp add: NewDHT22_def)

subsection \<open>The shape of the snapshot\<close>

lemma marshal_entries_Inr:
  "marshal_entries m = Inr js \<Longrightarrow>
     map fst js = map (\<lambda>kv. itoa (fst kv)) m \<and>
     (\<forall>e \<in> set js. map fst (members (snd e)) = [''name'', ''location'', ''temp'', ''humidity''])"
proof (induction m arbitrary: js)
  case Nil
  then show ?case by simp
next
  case (Cons kv m)
  obtain k d where kv: "kv = (k, d)" by (cases kv)
  from Cons.prems kv obtain j js' where
    j: "marshal_DHT22 d = Inr j" and js': "marshal_entries m = Inr js'" and js: "js = (itoa k, j) # js'"
    by (auto split: sum.splits)
  from j have "map fst (members j) = [''name'', ''location'', ''temp'', ''humidity'']"
    by (auto simp: marshal_DHT22_def split: sum.splits)
  with Cons.IH [OF js'] kv js show ?case by simp
qed

text \<open>
  Claim C6, as stated, fails: the reading is written under \<^verbatim>\<open>temp\<close>, so an entry has
  no member named \<^verbatim>\<open>temperature\<close>.
\<close>

theorem snapshot_fields_counterexample:
  "Manager_String \<lparr>Sensors = Some [(4, NewDHT22 4 ''Living Room'' ''Home'')], stopReading = None\<rparr> =
     Some (JObject [(''dht22'', JObject [(''4'',
       JObject [(''name'', JString ''Living Room''), (''location'', JString ''Home''),
                (''temp'', JNumber 0), (''humidity'', JNumber 0)])])]) \<and>
   member (JObject [(''name'', JString ''Living Room''), (''location'', JString ''Home''),
                    (''temp'', JNumber 0), (''humidity'', JNumber 0)]) ''temperature'' = None"
  by (simp add: Manager_String_def marshal_Manager_def sorted_by_key_def marshal_DHT22_def
      NewDHT22_def member_def itoa_def digits.simps digit_def)

text \<open>
  Claim C6, amended. Whenever \<open>Manager_String\<close> yields a document for a manager with a
  map, the document is an object with the single member \<^verbatim>\<open>dht22\<close>, which holds one
  entry for each registered address under the decimal rendering of the address, and each
  entry carries exactly the members \<^verbatim>\<open>name\<close>, \<^verbatim>\<open>location\<close>, \<^verbatim>\<open>temp\<close> and
  \<^verbatim>\<open>humidity\<close>, in this order. No entry has a \<^verbatim>\<open>lastError\<close> member.
\<close>

theorem snapshot_shape:
  assumes "Manager_String dm = Some j" and "Sensors dm = Some m"
  shows "\<exists>es. j = JObject [(''dht22'', JObject es)] \<and>
           map fst es = map (\<lambda>kv. itoa (fst kv)) (sorted_by_key m) \<and>
           set (map fst es) = (\<lambda>kv. itoa (fst kv)) ` set m \<and>
           (\<forall>e \<in> set es. map fst (members (snd e)) = [''name'', ''location'', ''temp'', ''humidity''])"
proof -
  from assms obtain es where es: "marshal_entries (sorted_by_key m) = Inr es"
    and j: "j = JObject [(''dht22'', JObject es)]"
    by (auto simp: Manager_String_def marshal_Manager_def split: sum.splits)
  note sh = marshal_entries_Inr [OF es]
  from sh have "set (map fst es) = (\<lambda>kv. itoa (fst kv)) ` set m"
    by (simp add: sorted_by_key_def)
  with sh j show ?thesis by blast
qed

theorem snapshot_shape_witness:
  "\<exists>es. JObject [(''dht22'', JObject [(''4'',
       JObject [(''name'', JString ''Living Room''), (''location'', JString ''Home''),
                (''temp'', JNumber 0), (''humidity'', JNumber 0)])])] = JObject [(''dht22'', JObject es)] \<and>
        map fst es = [''4''] \<and>
        list_all (\<lambda>e. map fst (members (snd e)) = [''name'', ''location'', ''temp'', ''humidity'']) es"
proof -
  have a: "Manager_String \<lparr>Sensors = Some [(4, NewDHT22 4 ''Living Room'' ''Home'')], stopReading = None\<rparr> =
     Some (JObject [(''dht22'', JObject [(''4'',
       JObject [(''name'', JString ''Living Room''), (''location'', JString ''Home''),
                (''temp'', JNumber 0), (''humidity'', JNumber 0)])])])"
    by (simp add: Manager_String_def marshal_Manager_def sorted_by_key_def marshal_DHT22_def
      NewDHT22_def member_def itoa_def digits.simps digit_def)
  have b: "Sensors \<lparr>Sensors = Some [(4, NewDHT22 4 ''Living Room'' ''Home'')], stopReading = None\<rparr> =
     Some [(4, NewDHT22 4 ''Living Room'' ''Home'')]" by simp
  from snapshot_shape [OF a b] show ?thesis
    by (simp add: sorted_by_key_def itoa_def digits.simps digit_def)
qed

subsection \<open>Stopping\<close>

lemma task_step_frame:
  "task_step mv t s = Inr (t', s') \<Longrightarrow>
     stopReading (manager s') = stopReading (manager s) \<and> closed s' = closed s \<and>
     nchans s' = nchans s \<and> tasks s' = tasks s"
  by (cases mv; cases t) (auto split: if_splits option.splits prod.splits)

lemma AddSensor_frame: "AddSensor dm h = Inr dm' \<Longrightarrow> stopReading dm' = stopReading dm"
  by (auto simp: AddSensor_def split: option.splits)

lemma step_frame:
  assumes "step e s = Inr s'" and "\<not> is_start e"
  shows "stopReading (manager s') = stopReading (manager s) \<and> closed s \<subseteq> closed s' \<and>
         nchans s' = nchans s \<and> length (tasks s') = length (tasks s)"
proof (cases e)
  case (CallAddSensor h)
  with assms show ?thesis by (auto split: sum.splits dest: AddSensor_frame)
next
  case (CallSetName p n)
  with assms show ?thesis by (auto simp: on_handle_def)
next
  case (CallSetLocation p n)
  with assms show ?thesis by (auto simp: on_handle_def)
next
  case (CallStartReadCycle iv)
  with assms show ?thesis by (simp add: is_start_def)
next
  case CallStopReadCycle
  with assms show ?thesis by (auto simp: StopReadCycle_def split: option.splits if_splits)
next
  case (Task i mv)
  with assms obtain t s1 where ts: "task_step mv (tasks s ! i) s = Inr (t, s1)"
    and s': "s' = s1\<lparr>tasks := (tasks s1)[i := t]\<rparr>"
    by (auto split: if_splits sum.splits)
  from task_step_frame [OF ts] s' show ?thesis by simp
qed

lemma run_frame:
  "run evs s = Inr s' \<Longrightarrow> \<forall>e \<in> set evs. \<not> is_start e \<Longrightarrow>
     stopReading (manager s') = stopReading (manager s) \<and> closed s \<subseteq> closed s' \<and>
     nchans s' = nchans s \<and> length (tasks s') = length (tasks s)"
proof (induction evs arbitrary: s)
  case Nil
  then show ?case by simp
next
  case (Cons e evs)
  from Cons.prems(1) obtain s1 where e: "step e s = Inr s1" and r: "run evs s1 = Inr s'"
    by (auto split: sum.splits)
  from step_frame [OF e] Cons.prems(2) Cons.IH [OF r] show ?case by auto
qed

text \<open>
  Claim C10. In every state reached from a manager made by \<open>NewManager\<close> without a call
  of \<open>StartReadCycle\<close>, the stop channel is nil and \<open>StopReadCycle\<close> panics with
  \<^verbatim>\<open>close of nil channel\<close>.
\<close>

theorem stop_before_start_panics:
  assumes "run evs boot = Inr s" and "\<forall>e \<in> set evs. \<not> is_start e"
  shows "stopReading (manager s) = None \<and> StopReadCycle s = Inl (Panic ''close of nil channel'')"
proof -
  from run_frame [OF assms] have "stopReading (manager s) = None"
    by (simp add: boot_def NewManager_def)
  then show ?thesis by (simp add: StopReadCycle_def)
qed

theorem stop_before_start_panics_witness:
  "run [register (19, ''top of tent'', ''tent'')] boot =
     Inr (boot\<lparr>manager := \<lparr>Sensors = Some [(19, NewDHT22 19 ''top of tent'' ''tent'')], stopReading = None\<rparr>\<rparr>) \<and>
   StopReadCycle (boot\<lparr>manager := \<lparr>Sensors = Some [(19, NewDHT22 19 ''top of tent'' ''tent'')], stopReading = None\<rparr>\<rparr>) =
     Inl (Panic ''close of nil channel'')"
proof -
  have r: "run [register (19, ''top of tent'', ''tent'')] boot =
           Inr (boot\<lparr>manager := \<lparr>Sensors = Some [(19, NewDHT22 19 ''top of tent'' ''tent'')], stopReading = None\<rparr>\<rparr>)"
    by (simp add: register_def boot_def NewManager_def AddSensor_def NewDHT22_def)
  have n: "\<forall>e \<in> set [register (19, ''top of tent'', ''tent'')]. \<not> is_start e"
    by (simp add: register_def is_start_def)
  from stop_before_start_panics [OF r n] have
    "StopReadCycle (boot\<lparr>manager := \<lparr>Sensors = Some [(19, NewDHT22 19 ''top of tent'' ''tent'')], stopReading = None\<rparr>\<rparr>) =
     Inl (Panic ''close of nil channel'')" by (rule conjunct2)
  with r show ?thesis by (rule conjI)
qed

text \<open>
  Claim C8, as stated, fails: the second of two calls of \<open>StopReadCycle\<close> closes a closed
  channel, which panics.
\<close>

theorem second_stop_counterexample:
  "run [CallStartReadCycle 5000000000, CallStopReadCycle, CallStopReadCycle] boot =
     Inl (Panic ''close of closed channel'')"
  by (simp add: boot_def NewManager_def StartReadCycle_def StopReadCycle_def)

text \<open>
  Claim C8, amended. After a call of \<open>StopReadCycle\<close> that returned, and whatever happens
  next short of a call of \<open>StartReadCycle\<close>, a further call of \<open>StopReadCycle\<close> panics
  with \<^verbatim>\<open>close of closed channel\<close>.
\<close>

theorem second_stop_panics:
  assumes "StopReadCycle s1 = Inr s2" and "run evs s2 = Inr s3" and "\<forall>e \<in> set evs. \<not> is_start e"
  shows "StopReadCycle s3 = Inl (Panic ''close of closed channel'')"
proof -
  from assms(1) obtain c where "stopReading (manager s2) = Some c" "c \<in> closed s2"
    by (auto simp: StopReadCycle_def split: option.splits if_splits)
  with run_frame [OF assms(2,3)] have "stopReading (manager s3) = Some c" "c \<in> closed s3"
    by auto
  then show ?thesis by (simp add: StopReadCycle_def)
qed

theorem second_stop_panics_witness:
  "StopReadCycle (StartReadCycle boot 5000000000) = Inr ((StartReadCycle boot 5000000000)\<lparr>closed := {0}\<rparr>) \<and>
   StopReadCycle ((StartReadCycle boot 5000000000)\<lparr>closed := {0}, tasks := [Selecting 5000000000 (Some 0)]\<rparr>) = Inl (Panic ''close of closed channel'')"
proof -
  let ?s1 = "StartReadCycle boot 5000000000"
  let ?s2 = "?s1\<lparr>closed := {0}\<rparr>"
  have a: "StopReadCycle ?s1 = Inr ?s2"
    by (simp add: boot_def NewManager_def StartReadCycle_def StopReadCycle_def)
  have b: "run [Task 0 Enter] ?s2 = Inr (?s1\<lparr>closed := {0}, tasks := [Selecting 5000000000 (Some 0)]\<rparr>)"
    by (simp add: boot_def NewManager_def StartReadCycle_def)
  have c: "\<forall>e \<in> set [Task 0 Enter]. \<not> is_start e" by (simp add: is_start_def)
  from second_stop_panics [OF a b c] a show ?thesis by simp
qed

subsection \<open>Starting twice\<close>

lemma coherent_boot: "coherent boot"
  by (simp add: coherent_def boot_def NewManager_def)

lemma coherent_step:
  assumes "step e s = Inr s'" and "coherent s"
  shows "coherent s'"
proof (cases "is_start e")
  case True
  then obtain iv where "e = CallStartReadCycle iv" by (cases e) (auto simp: is_start_def)
  with assms show ?thesis
    by (auto simp: coherent_def StartReadCycle_def split: option.splits)
next
  case False
  have "closed s' \<subseteq> {..<nchans s'}"
  proof (cases e)
    case CallStopReadCycle
    with assms show ?thesis
      by (auto simp: StopReadCycle_def coherent_def split: option.splits if_splits)
  next
    case (Task i mv)
    with assms(1) obtain t s1 where ts: "task_step mv (tasks s ! i) s = Inr (t, s1)"
      and s': "s' = s1\<lparr>tasks := (tasks s1)[i := t]\<rparr>"
      by (auto split: if_splits sum.splits)
    from task_step_frame [OF ts] s' assms(2) show ?thesis by (simp add: coherent_def)
  next
    case (CallStartReadCycle iv)
    with False show ?thesis by (simp add: is_start_def)
  qed (use assms in \<open>auto simp: coherent_def AddSensor_def split: sum.splits option.splits\<close>)
  with step_frame [OF assms(1) False] assms(2) show ?thesis
    by (auto simp: coherent_def split: option.splits)
qed

lemma coherent_run: "run evs s = Inr s' \<Longrightarrow> coherent s \<Longrightarrow> coherent s'"
proof (induction evs arbitrary: s)
  case Nil
  then show ?case by simp
next
  case (Cons e evs)
  from Cons.prems(1) obtain s1 where e: "step e s = Inr s1" and r: "run evs s1 = Inr s'"
    by (auto split: sum.splits)
  from Cons.IH [OF r coherent_step [OF e Cons.prems(2)]] show ?case .
qed

text \<open>
  Claim C7, as stated, fails: \<open>StartReadCycle\<close> has no guard and no result to report an
  error with. Called twice, it leaves two goroutines, and after their first ticks both
  of them are in the polling loop and read the sensor in turn.
\<close>

theorem second_start_counterexample:
  "(case run [register (19, ''top of tent'', ''tent''),
              CallStartReadCycle 5000000000, CallStartReadCycle 5000000000,
              Task 0 Enter, Task 1 Enter, Task 0 TakeTick, Task 1 TakeTick,
              Task 0 (Pass (\<lambda>p. (Finite 21.5, Finite 40, 0, None))),
              Task 1 (Pass (\<lambda>p. (Finite 22, Finite 41, 0, None)))] boot of
      Inl f \<Rightarrow> None
    | Inr s \<Rightarrow> Some (tasks s, reading s 19)) =
   Some ([Looping 5000000000, Looping 5000000000], Some (Finite 22, Finite 41))"
  by (simp add: register_def boot_def NewManager_def AddSensor_def NewDHT22_def StartReadCycle_def
      reading_def float64_of_def)

text \<open>
  Claim C7, amended. In every state reached from a fresh manager in which
  \<open>StartReadCycle\<close> has been called, so that the manager holds a stop channel, a further
  call returns without an error, makes a new open channel that replaces the old one in
  the manager, and spawns one more goroutine beside those already there; the sensors
  are untouched.
\<close>

theorem second_start_spawns:
  assumes "run evs boot = Inr s" and "stopReading (manager s) = Some c"
  shows "step (CallStartReadCycle interval) s = Inr (StartReadCycle s interval) \<and>
         tasks s \<noteq> [] \<and>
         tasks (StartReadCycle s interval) = tasks s @ [Spawned interval] \<and>
         stopReading (manager (StartReadCycle s interval)) = Some (nchans s) \<and>
         nchans s \<noteq> c \<and> nchans s \<notin> closed (StartReadCycle s interval) \<and>
         Sensors (manager (StartReadCycle s interval)) = Sensors (manager s)"
proof -
  from coherent_run [OF assms(1) coherent_boot] have "coherent s" .
  with assms(2) have "c < nchans s" "tasks s \<noteq> []" "nchans s \<notin> closed s"
    by (auto simp: coherent_def)
  then show ?thesis by (simp add: StartReadCycle_def)
qed

theorem second_start_spawns_witness:
  "step (CallStartReadCycle 5000000000) (StartReadCycle boot 5000000000) =
     Inr (StartReadCycle (StartReadCycle boot 5000000000) 5000000000) \<and>
   tasks (StartReadCycle (StartReadCycle boot 5000000000) 5000000000) =
     [Spawned 5000000000, Spawned 5000000000] \<and>
   stopReading (manager (StartReadCycle (StartReadCycle boot 5000000000) 5000000000)) = Some 1"
proof -
  have r: "run [CallStartReadCycle 5000000000] boot = Inr (StartReadCycle boot 5000000000)"
    by simp
  have c: "stopReading (manager (StartReadCycle boot 5000000000)) = Some 0"
    by (simp add: StartReadCycle_def boot_def)
  from second_start_spawns [OF r c, of 5000000000] show ?thesis
    by (simp add: StartReadCycle_def boot_def)
qed

subsection \<open>What stopping does to the read cycle\<close>

text \<open>
  Claim C1, as stated, fails: \<open>StopReadCycle\<close> closes the channel and returns; once the
  goroutine has taken its first tick, a pass that starts after the call has returned
  still reads the sensor and changes its values.
\<close>

theorem stop_does_not_freeze_counterexample:
  "(case run [register (19, ''top of tent'', ''tent''), CallStartReadCycle 5000000000,
              Task 0 Enter, Task 0 TakeTick, CallStopReadCycle] boot of
      Inl f \<Rightarrow> None
    | Inr s \<Rightarrow> reading s 19) = Some (Finite 0, Finite 0) \<and>
   (case run [register (19, ''top of tent'', ''tent''), CallStartReadCycle 5000000000,
              Task 0 Enter, Task 0 TakeTick, CallStopReadCycle,
              Task 0 (Pass (\<lambda>p. (Finite 21.5, Finite 40, 0, None)))] boot of
      Inl f \<Rightarrow> None
    | Inr s \<Rightarrow> reading s 19) = Some (Finite 21.5, Finite 40)"
  by (simp add: register_def boot_def NewManager_def AddSensor_def NewDHT22_def StartReadCycle_def
      StopReadCycle_def reading_def float64_of_def)

text \<open>
  Claim C1, amended. On a manager whose stop channel is open, \<open>StopReadCycle\<close> closes
  that channel and does nothing else: it returns at once, it waits for no goroutine and
  it leaves every handle as it is. A goroutine still blocked in its \<^verbatim>\<open>select\<close> on that
  channel can then take the stop case and exit, and a goroutine that has exited makes no
  further move, so it reads no sensor.
\<close>

theorem StopReadCycle_only_closes:
  assumes "stopReading (manager s) = Some c" and "c \<notin> closed s"
  shows "StopReadCycle s = Inr (s\<lparr>closed := insert c (closed s)\<rparr>) \<and>
         (\<forall>i interval. i < length (tasks s) \<and> tasks s ! i = Selecting interval (Some c) \<longrightarrow>
            step (Task i TakeStop) (s\<lparr>closed := insert c (closed s)\<rparr>) =
              Inr (s\<lparr>closed := insert c (closed s), tasks := (tasks s)[i := Exited]\<rparr>)) \<and>
         (\<forall>s' i mv. i < length (tasks s') \<and> tasks s' ! i = Exited \<longrightarrow>
            step (Task i mv) s' = Inl NotEnabled)"
proof -
  have a: "StopReadCycle s = Inr (s\<lparr>closed := insert c (closed s)\<rparr>)"
    using assms by (simp add: StopReadCycle_def)
  have b: "task_step mv Exited s' = Inl NotEnabled" for mv s'
    by (cases mv) simp_all
  from a b show ?thesis by simp
qed

theorem StopReadCycle_only_closes_witness:
  "StopReadCycle \<lparr>manager = \<lparr>Sensors = Some [(19, NewDHT22 19 ''top of tent'' ''tent'')], stopReading = Some 0\<rparr>,
                  closed = {}, nchans = 1, tasks = [Selecting 5000000000 (Some 0)], stdout = []\<rparr> =
     Inr \<lparr>manager = \<lparr>Sensors = Some [(19, NewDHT22 19 ''top of tent'' ''tent'')], stopReading = Some 0\<rparr>,
          closed = {0}, nchans = 1, tasks = [Selecting 5000000000 (Some 0)], stdout = []\<rparr> \<and>
   step (Task 0 TakeStop)
        \<lparr>manager = \<lparr>Sensors = Some [(19, NewDHT22 19 ''top of tent'' ''tent'')], stopReading = Some 0\<rparr>,
          closed = {0}, nchans = 1, tasks = [Selecting 5000000000 (Some 0)], stdout = []\<rparr> =
     Inr \<lparr>manager = \<lparr>Sensors = Some [(19, NewDHT22 19 ''top of tent'' ''tent'')], stopReading = Some 0\<rparr>,
          closed = {0}, nchans = 1, tasks = [Exited], stdout = []\<rparr>"
  using StopReadCycle_only_closes [of
      "\<lparr>manager = \<lparr>Sensors = Some [(19, NewDHT22 19 ''top of tent'' ''tent'')], stopReading = Some 0\<rparr>,
        closed = {}, nchans = 1, tasks = [Selecting 5000000000 (Some 0)], stdout = []\<rparr>" 0]
  by simp

subsection \<open>The polling loop\<close>

text \<open>
  A pass reads every registered handle, each with the result of its own driver call, and
  keeps the keys. A goroutine that has entered the loop stays in it whatever happens:
  its only move is another pass.
\<close>

lemma read_all_keys: "map fst (fst (read_all drv m)) = map fst m"
  by (induction m) (auto split: prod.splits)

lemma read_all_lookup:
  "map_of (fst (read_all drv m)) k = map_option (\<lambda>d. fst (read d (drv (pin d)))) (map_of m k)"
  by (induction m) (auto split: prod.splits)

lemma looping_step:
  assumes "step e s = Inr s'" and "i < length (tasks s)" and "tasks s ! i = Looping interval"
  shows "i < length (tasks s') \<and> tasks s' ! i = Looping interval"
proof (cases e)
  case (CallAddSensor h)
  with assms show ?thesis by (auto split: sum.splits simp: AddSensor_def split: option.splits)
next
  case (CallSetName p n)
  with assms show ?thesis by auto
next
  case (CallSetLocation p n)
  with assms show ?thesis by auto
next
  case (CallStartReadCycle iv)
  with assms show ?thesis by (auto simp: StartReadCycle_def nth_append)
next
  case CallStopReadCycle
  with assms show ?thesis by (auto simp: StopReadCycle_def split: option.splits if_splits)
next
  case (Task j mv)
  with assms(1) have j: "j < length (tasks s)" by (auto split: if_splits)
  from Task assms(1) j obtain t s1 where ts: "task_step mv (tasks s ! j) s = Inr (t, s1)"
    and s': "s' = s1\<lparr>tasks := (tasks s1)[j := t]\<rparr>"
    by (auto split: sum.splits)
  from task_step_frame [OF ts] have fr: "tasks s1 = tasks s" by simp
  show ?thesis
  proof (cases "j = i")
    case True
    with ts assms(3) have "t = Looping interval"
      by (cases mv) (auto split: option.splits prod.splits)
    with s' fr assms(2) True show ?thesis by simp
  next
    case False
    with s' fr assms(2,3) show ?thesis by simp
  qed
qed

lemma looping_never_exits:
  "run evs s = Inr s' \<Longrightarrow> i < length (tasks s) \<Longrightarrow> tasks s ! i = Looping interval \<Longrightarrow>
     i < length (tasks s') \<and> tasks s' ! i = Looping interval"
proof (induction evs arbitrary: s)
  case Nil
  then show ?case by simp
next
  case (Cons e evs)
  from Cons.prems(1) obtain s1 where e: "step e s = Inr s1" and r: "run evs s1 = Inr s'"
    by (auto split: sum.splits)
  from looping_step [OF e Cons.prems(2,3)] Cons.IH [OF r] show ?case by blast
qed

lemma looping_moves:
  "task_step TakeTick (Looping interval) s = Inl NotEnabled \<and>
   task_step TakeStop (Looping interval) s = Inl NotEnabled \<and>
   task_step Enter (Looping interval) s = Inl NotEnabled \<and>
   (\<exists>s'. task_step (Pass drv) (Looping interval) s = Inr (Looping interval, s'))"
  by (auto split: option.splits prod.splits)

text \<open>
  Claim C2 against the code. After the first tick the goroutine never looks at the
  ticker or at the stop channel again: with one tick taken it makes pass after pass,
  also after \<open>StopReadCycle\<close> has closed the channel; a second tick cannot be taken and
  the stop case cannot be taken.
\<close>

theorem read_cycle_ignores_ticks_and_stop:
  "(case run [register (19, ''top of tent'', ''tent''), CallStartReadCycle 5000000000,
              Task 0 Enter, Task 0 TakeTick,
              Task 0 (Pass (\<lambda>p. (Finite 21.5, Finite 40, 0, None))),
              Task 0 (Pass (\<lambda>p. (Finite 22, Finite 41, 0, None))),
              CallStopReadCycle,
              Task 0 (Pass (\<lambda>p. (Finite 23, Finite 42, 0, None)))] boot of
      Inl f \<Rightarrow> None
    | Inr s \<Rightarrow> Some (tasks s, reading s 19)) =
     Some ([Looping 5000000000], Some (Finite 23, Finite 42)) \<and>
   run [register (19, ''top of tent'', ''tent''), CallStartReadCycle 5000000000,
        Task 0 Enter, Task 0 TakeTick,
        Task 0 (Pass (\<lambda>p. (Finite 21.5, Finite 40, 0, None))),
        Task 0 TakeTick] boot = Inl NotEnabled \<and>
   run [register (19, ''top of tent'', ''tent''), CallStartReadCycle 5000000000,
        Task 0 Enter, Task 0 TakeTick,
        Task 0 (Pass (\<lambda>p. (Finite 21.5, Finite 40, 0, None))),
        CallStopReadCycle,
        Task 0 TakeStop] boot = Inl NotEnabled"
  by (simp add: register_def boot_def NewManager_def AddSensor_def NewDHT22_def StartReadCycle_def
      StopReadCycle_def reading_def float64_of_def)

subsection \<open>Accesses to one handle, interleaved\<close>

text \<open>
  The access sequences are the bodies of the functions: run alone, each does what the
  function does.
\<close>

lemma alone_read_code:
  "alone (read_code r) (fresh_cell d) =
     Inr \<lparr>obj = fst (read d r), locked = False, printed = snd (read d r), encoded = []\<rparr>"
  by (cases r) (simp add: fresh_cell_def)

lemma alone_SetName_code: "alone (SetName_code name) (fresh_cell d) = Inr (fresh_cell (SetName d name))"
  by (simp add: SetName_code_def fresh_cell_def SetName_def)

lemma alone_SetLocation_code:
  "alone (SetLocation_code location) (fresh_cell d) = Inr (fresh_cell (SetLocation d location))"
  by (simp add: SetLocation_code_def fresh_cell_def SetLocation_def)

lemma alone_String_code:
  "alone String_code (fresh_cell d) = Inr ((fresh_cell d)\<lparr>encoded := [marshal_DHT22 d]\<rparr>)"
  by (simp add: String_code_def fresh_cell_def)

text \<open>
  Claim C9 against the code. \<open>read\<close> and the encoder take no lock, so the encoder can
  run between the two stores of one read: the entry it writes has the temperature of
  the new reading and the humidity of the old one, and is the entry of the handle
  neither before nor after that read.
\<close>

theorem torn_snapshot:
  "(case interleave [0, 1, 0]
           [read_code (Finite 21.5, Finite 40, 0, None), String_code]
           (fresh_cell (NewDHT22 4 ''Living Room'' ''Home'')) of
      Inl f \<Rightarrow> []
    | Inr c \<Rightarrow> encoded c) =
     [Inr (JObject [(''name'', JString ''Living Room''), (''location'', JString ''Home''),
                    (''temp'', JNumber 21.5), (''humidity'', JNumber 0)])] \<and>
   marshal_DHT22 (NewDHT22 4 ''Living Room'' ''Home'') =
     Inr (JObject [(''name'', JString ''Living Room''), (''location'', JString ''Home''),
                   (''temp'', JNumber 0), (''humidity'', JNumber 0)]) \<and>
   marshal_DHT22 (fst (read (NewDHT22 4 ''Living Room'' ''Home'') (Finite 21.5, Finite 40, 0, None))) =
     Inr (JObject [(''name'', JString ''Living Room''), (''location'', JString ''Home''),
                   (''temp'', JNumber 21.5), (''humidity'', JNumber 40)])"
  by (simp add: String_code_def fresh_cell_def NewDHT22_def marshal_DHT22_def float64_of_def)

end
